theory Spec2Isabelle
  imports Complex_Main "HOL-Library.AList"
begin

unbundle bit_operations_syntax

section \<open>Data model\<close>

text \<open>
  The program is the Python fingerprinting engine of \<^verbatim>\<open>song_recognizer.py\<close> and its copy
  in \<^verbatim>\<open>app.py\<close>.

  \<^item> A landmark is the two-element list \<^verbatim>\<open>[time_idx, frequency]\<close>: the window index is a
    Python integer, the frequency a float. Frequencies are modelled as exact rationals;
    \<^verbatim>\<open>int(x)\<close> on a float is truncation towards zero.
  \<^item> A Python \<^verbatim>\<open>dict\<close> is an association list in insertion order: assigning to a key that
    is present replaces the value in place, assigning to a new key appends the item at the
    end. This is \<^const>\<open>AList.update\<close>; lookup is \<^const>\<open>map_of\<close>.
  \<^item> A song identifier is \<^verbatim>\<open>None\<close> or the position of the file in the sorted corpus.
\<close>

type_synonym landmark = "int \<times> rat"
type_synonym song_id = "nat option"
type_synonym hash_entry = "int \<times> song_id"
type_synonym hash_dict = "(int \<times> hash_entry) list"
type_synonym database = "(int \<times> hash_entry list) list"
type_synonym match = "int \<times> int \<times> int"
type_synonym song_matches = "(song_id \<times> match list) list"
type_synonym song_score = "song_id \<times> (int \<times> int)"

definition py_int :: "rat \<Rightarrow> int" where
  "py_int x = (if 0 \<le> x then \<lfloor>x\<rfloor> else \<lceil>x\<rceil>)"

section \<open>\<^verbatim>\<open>create_constellation_map\<close>\<close>

text \<open>
  The exceptions that the statements of the function can raise: \<^verbatim>\<open>audio.size % 0\<close> raises
  \<^verbatim>\<open>ZeroDivisionError\<close>; \<^verbatim>\<open>np.pad\<close> raises \<^verbatim>\<open>ValueError\<close> for a negative pad width;
  indexing an array beyond its end raises \<^verbatim>\<open>IndexError\<close>.
\<close>

datatype error = ZeroDivisionError | ValueError | IndexError

text \<open>
  \<^verbatim>\<open>int(sample_window_duration * sample_rate)\<close> with duration 0.5, then
  \<^verbatim>\<open>sample_window_size += sample_window_size % 2\<close>.
\<close>

definition sample_window_size :: "int \<Rightarrow> int" where
  "sample_window_size sample_rate =
     (let sample_window_size = py_int (1 / 2 * of_int sample_rate)
      in sample_window_size + sample_window_size mod 2)"

definition num_peaks :: nat where
  "num_peaks = 15"

text \<open>\<^verbatim>\<open>sample_window_size - audio.size % sample_window_size\<close>, for a non-zero window size.\<close>

definition padding :: "nat \<Rightarrow> int \<Rightarrow> int" where
  "padding audio_size sample_rate =
     sample_window_size sample_rate - int audio_size mod sample_window_size sample_rate"

text \<open>The slice \<^verbatim>\<open>xs[-n:]\<close> for \<open>n \<ge> 0\<close>; \<^verbatim>\<open>xs[-0:]\<close> is the whole array.\<close>

definition last_n :: "nat \<Rightarrow> 'a list \<Rightarrow> 'a list" where
  "last_n n xs = (if n = 0 then xs else drop (length xs - n) xs)"

definition index_array :: "'a list \<Rightarrow> nat \<Rightarrow> error + 'a" where
  "index_array xs i = (if i < length xs then Inr (xs ! i) else Inl IndexError)"

text \<open>A loop whose body can raise: the first exception ends it.\<close>

fun map_err :: "('a \<Rightarrow> error + 'b) \<Rightarrow> 'a list \<Rightarrow> error + 'b list" where
  "map_err f [] = Inr []"
| "map_err f (x # xs) =
     (case f x of
        Inl e \<Rightarrow> Inl e
      | Inr y \<Rightarrow> (case map_err f xs of Inl e \<Rightarrow> Inl e | Inr ys \<Rightarrow> Inr (y # ys)))"

text \<open>
  The library functions are parameters of the model:
  \<^item> \<open>stft padded_audio sample_rate n\<close> stands for
    \<^verbatim>\<open>signal.stft(padded_audio, sample_rate, nperseg=n, nfft=n, return_onesided=True)\<close> and
    returns \<^verbatim>\<open>frequencies\<close> and the columns of the transform (the rows of \<^verbatim>\<open>stft.T\<close>);
  \<^item> \<open>find_peaks window\<close> stands for
    \<^verbatim>\<open>signal.find_peaks(np.abs(window), prominence=0, distance=200)\<close> and returns the peak
    indices and their prominences;
  \<^item> \<open>argpartition a kth\<close> stands for \<^verbatim>\<open>np.argpartition(a, kth)\<close>.

  The body of the loop over the windows: the landmarks of one window.
\<close>

definition window_landmarks ::
  "('c \<Rightarrow> nat list \<times> rat list) \<Rightarrow> (rat list \<Rightarrow> int \<Rightarrow> nat list) \<Rightarrow> rat list \<Rightarrow>
   nat \<times> 'c \<Rightarrow> error + landmark list" where
  "window_landmarks find_peaks argpartition frequencies item =
     (case item of (time_idx, window) \<Rightarrow>
        (case find_peaks window of (peaks, prominences) \<Rightarrow>
           let n_peaks = min num_peaks (length peaks);
               prominent_peaks = last_n n_peaks (argpartition prominences (- int n_peaks))
           in (case map_err (index_array peaks) prominent_peaks of
                 Inl e \<Rightarrow> Inl e
               | Inr selected \<Rightarrow>
                   map_err (\<lambda>peak. case index_array frequencies peak of
                                      Inl e \<Rightarrow> Inl e
                                    | Inr frequency \<Rightarrow> Inr (int time_idx, frequency))
                     selected)))"

definition create_constellation_map ::
  "('a::zero list \<Rightarrow> int \<Rightarrow> int \<Rightarrow> rat list \<times> 'c list) \<Rightarrow> ('c \<Rightarrow> nat list \<times> rat list) \<Rightarrow>
   (rat list \<Rightarrow> int \<Rightarrow> nat list) \<Rightarrow> 'a list \<Rightarrow> int \<Rightarrow> error + landmark list" where
  "create_constellation_map stft find_peaks argpartition audio sample_rate =
     (if sample_window_size sample_rate = 0 then Inl ZeroDivisionError
      else if padding (length audio) sample_rate < 0 then Inl ValueError
      else
        let padded_audio = audio @ replicate (nat (padding (length audio) sample_rate)) 0
        in (case stft padded_audio sample_rate (sample_window_size sample_rate) of
              (frequencies, columns) \<Rightarrow>
                (case map_err (window_landmarks find_peaks argpartition frequencies)
                        (enumerate 0 columns) of
                   Inl e \<Rightarrow> Inl e
                 | Inr constellation_maps \<Rightarrow> Inr (concat constellation_maps))))"

section \<open>\<^verbatim>\<open>create_hashes\<close>\<close>

definition upper_frequency :: rat where
  "upper_frequency = 23000"

definition frequency_bits :: nat where
  "frequency_bits = 10"

text \<open>The packed value computed in the body of the inner loop.\<close>

definition hash_val :: "rat \<Rightarrow> rat \<Rightarrow> int \<Rightarrow> int" where
  "hash_val freq other_freq time_diff =
     (let freq_conv = freq / upper_frequency * 2 ^ frequency_bits;
          other_freq_conv = other_freq / upper_frequency * 2 ^ frequency_bits
      in py_int freq_conv OR push_bit 10 (py_int other_freq_conv) OR push_bit 20 time_diff)"

text \<open>Body of the inner loop, for the anchor \<open>(time, freq)\<close> and one candidate target.\<close>

definition inner_step :: "int \<Rightarrow> rat \<Rightarrow> song_id \<Rightarrow> landmark \<Rightarrow> hash_dict \<Rightarrow> hash_dict" where
  "inner_step time freq song_id other hashes =
     (case other of (other_time, other_freq) \<Rightarrow>
        let time_diff = other_time - time
        in if time_diff \<le> 1 \<or> time_diff > 10 then hashes
           else AList.update (hash_val freq other_freq time_diff) (time, song_id) hashes)"

text \<open>Body of the outer loop: the slice \<^verbatim>\<open>constellation_map[idx : idx + 100]\<close>.\<close>

definition outer_step :: "landmark list \<Rightarrow> song_id \<Rightarrow> nat \<Rightarrow> hash_dict \<Rightarrow> hash_dict" where
  "outer_step constellation_map song_id idx hashes =
     (case constellation_map ! idx of (time, freq) \<Rightarrow>
        fold (inner_step time freq song_id) (take 100 (drop idx constellation_map)) hashes)"

definition create_hashes :: "landmark list \<Rightarrow> song_id \<Rightarrow> hash_dict" where
  "create_hashes constellation_map song_id =
     fold (outer_step constellation_map song_id) [0..<length constellation_map] []"

section \<open>\<^verbatim>\<open>score_songs\<close>\<close>

text \<open>
  \<^verbatim>\<open>if song_index not in song_matches: song_matches[song_index] = []\<close> followed by
  \<^verbatim>\<open>song_matches[song_index].append(...)\<close>.
\<close>

definition add_match :: "int \<Rightarrow> int \<Rightarrow> hash_entry \<Rightarrow> song_matches \<Rightarrow> song_matches" where
  "add_match hash_value sample_time entry song_matches =
     (case entry of (ref_time, song_index) \<Rightarrow>
        (case map_of song_matches song_index of
           None \<Rightarrow> AList.update song_index ([] @ [(hash_value, sample_time, ref_time)]) song_matches
         | Some matches \<Rightarrow>
             AList.update song_index (matches @ [(hash_value, sample_time, ref_time)]) song_matches))"

definition lookup_step :: "database \<Rightarrow> int \<times> hash_entry \<Rightarrow> song_matches \<Rightarrow> song_matches" where
  "lookup_step database item song_matches =
     (case item of (hash_value, (sample_time, _)) \<Rightarrow>
        (case map_of database hash_value of
           None \<Rightarrow> song_matches
         | Some match_list \<Rightarrow> fold (add_match hash_value sample_time) match_list song_matches))"

definition collect_matches :: "hash_dict \<Rightarrow> database \<Rightarrow> song_matches" where
  "collect_matches hashes database = fold (lookup_step database) hashes []"

text \<open>The histogram \<^verbatim>\<open>offset_scores\<close> of one song.\<close>

definition count_offset :: "match \<Rightarrow> (int \<times> int) list \<Rightarrow> (int \<times> int) list" where
  "count_offset m offset_scores =
     (case m of (hash_value, sample_time, ref_time) \<Rightarrow>
        let delta = ref_time - sample_time
        in (case map_of offset_scores delta of
              None \<Rightarrow> AList.update delta (0 + 1) offset_scores
            | Some score \<Rightarrow> AList.update delta (score + 1) offset_scores))"

definition offset_histogram :: "match list \<Rightarrow> (int \<times> int) list" where
  "offset_histogram matches = fold count_offset matches []"

text \<open>The scan for \<^verbatim>\<open>max_score\<close>, starting from \<^verbatim>\<open>(0, 0)\<close>, replacing on strictly greater.\<close>

definition max_step :: "int \<times> int \<Rightarrow> int \<times> int \<Rightarrow> int \<times> int" where
  "max_step item max_score =
     (case item of (offset, score) \<Rightarrow>
        if score > snd max_score then (offset, score) else max_score)"

definition max_score :: "(int \<times> int) list \<Rightarrow> int \<times> int" where
  "max_score offset_scores = fold max_step offset_scores (0, 0)"

definition score_step :: "song_id \<times> match list \<Rightarrow> song_score list \<Rightarrow> song_score list" where
  "score_step item song_scores =
     (case item of (song_index, matches) \<Rightarrow>
        AList.update song_index (max_score (offset_histogram matches)) song_scores)"

definition song_scores :: "song_matches \<Rightarrow> song_score list" where
  "song_scores song_matches = fold score_step song_matches []"

text \<open>
  \<^verbatim>\<open>sorted(items, key=..., reverse=True)\<close>: a stable sort that keeps the original order of
  items with equal keys; CPython reverses the list, sorts it stably in ascending order and
  reverses the result.
\<close>

definition sorted_reverse :: "('a \<Rightarrow> int) \<Rightarrow> 'a list \<Rightarrow> 'a list" where
  "sorted_reverse key xs = rev (sort_key key (rev xs))"

text \<open>
  The global \<^verbatim>\<open>database\<close> read by \<^verbatim>\<open>score_songs\<close> in \<^verbatim>\<open>song_recognizer.py\<close> is an explicit
  argument.
\<close>

definition score_songs :: "hash_dict \<Rightarrow> database \<Rightarrow> song_score list" where
  "score_songs hashes database =
     sorted_reverse (\<lambda>x. snd (snd x)) (song_scores (collect_matches hashes database))"

section \<open>The index build loop of the main script\<close>

text \<open>
  \<^verbatim>\<open>if hash_val not in database: database[hash_val] = []\<close> followed by
  \<^verbatim>\<open>database[hash_val].append(time_idx_tuple)\<close>.
\<close>

definition index_add :: "int \<times> hash_entry \<Rightarrow> database \<Rightarrow> database" where
  "index_add item database =
     (case item of (hash_value, time_idx_tuple) \<Rightarrow>
        (case map_of database hash_value of
           None \<Rightarrow> AList.update hash_value ([] @ [time_idx_tuple]) database
         | Some entries \<Rightarrow> AList.update hash_value (entries @ [time_idx_tuple]) database))"

text \<open>
  One iteration of \<^verbatim>\<open>for idx, file in enumerate(sorted(song_files))\<close>; the recording is
  given by its constellation map.
\<close>

definition add_song :: "nat \<times> landmark list \<Rightarrow> database \<Rightarrow> database" where
  "add_song item database =
     (case item of (idx, constellation_map) \<Rightarrow>
        fold index_add (create_hashes constellation_map (Some idx)) database)"

definition build_database :: "landmark list list \<Rightarrow> database" where
  "build_database corpus = fold add_song (enumerate 0 corpus) []"

section \<open>The copies in \<^verbatim>\<open>app.py\<close>\<close>

text \<open>
  \<^verbatim>\<open>app.py\<close> defines \<^verbatim>\<open>create_constellation_map\<close>, \<^verbatim>\<open>create_hashes\<close> and \<^verbatim>\<open>score_songs\<close> again;
  its \<^verbatim>\<open>score_songs\<close> takes \<^verbatim>\<open>database\<close> as a second parameter. They are translated here on
  their own, each as one term with its loop bodies in place.
\<close>

definition app_create_constellation_map ::
  "('a::zero list \<Rightarrow> int \<Rightarrow> int \<Rightarrow> rat list \<times> 'c list) \<Rightarrow> ('c \<Rightarrow> nat list \<times> rat list) \<Rightarrow>
   (rat list \<Rightarrow> int \<Rightarrow> nat list) \<Rightarrow> 'a list \<Rightarrow> int \<Rightarrow> error + landmark list" where
  "app_create_constellation_map stft find_peaks argpartition audio sample_rate =
     (let sample_window_duration = 1 / 2;
          sample_window_size = py_int (sample_window_duration * of_int sample_rate);
          sample_window_size = sample_window_size + sample_window_size mod 2;
          num_peaks = 15
      in if sample_window_size = 0 then Inl ZeroDivisionError
         else
           let padding = sample_window_size - int (length audio) mod sample_window_size
           in if padding < 0 then Inl ValueError
              else
                let padded_audio = audio @ replicate (nat padding) 0
                in (case stft padded_audio sample_rate sample_window_size of
                      (frequencies, columns) \<Rightarrow>
                        (case map_err
                           (\<lambda>(time_idx, window).
                              case find_peaks window of (peaks, prominences) \<Rightarrow>
                                let n_peaks = min num_peaks (length peaks);
                                    prominent_peaks =
                                      last_n n_peaks (argpartition prominences (- int n_peaks))
                                in (case map_err (index_array peaks) prominent_peaks of
                                      Inl e \<Rightarrow> Inl e
                                    | Inr selected \<Rightarrow>
                                        map_err
                                          (\<lambda>peak. case index_array frequencies peak of
                                                     Inl e \<Rightarrow> Inl e
                                                   | Inr frequency \<Rightarrow> Inr (int time_idx, frequency))
                                          selected))
                           (enumerate 0 columns) of
                           Inl e \<Rightarrow> Inl e
                         | Inr constellation_maps \<Rightarrow> Inr (concat constellation_maps))))"

definition app_create_hashes :: "landmark list \<Rightarrow> song_id \<Rightarrow> hash_dict" where
  "app_create_hashes constellation_map song_id =
     (let upper_frequency = 23000; frequency_bits = 10
      in fold
           (\<lambda>idx hashes.
              case constellation_map ! idx of (time, freq) \<Rightarrow>
                fold
                  (\<lambda>(other_time, other_freq) hashes.
                     let time_diff = other_time - time
                     in if time_diff \<le> 1 \<or> time_diff > 10 then hashes
                        else
                          let freq_conv = freq / upper_frequency * 2 ^ frequency_bits;
                              other_freq_conv = other_freq / upper_frequency * 2 ^ frequency_bits;
                              hash_value = py_int freq_conv OR push_bit 10 (py_int other_freq_conv)
                                             OR push_bit 20 time_diff
                          in AList.update hash_value (time, song_id) hashes)
                  (take 100 (drop idx constellation_map)) hashes)
           [0..<length constellation_map] [])"

definition app_score_songs :: "hash_dict \<Rightarrow> database \<Rightarrow> song_score list" where
  "app_score_songs hashes database =
     (let song_matches =
            fold
              (\<lambda>(hash_value, (sample_time, _)) song_matches.
                 case map_of database hash_value of
                   None \<Rightarrow> song_matches
                 | Some match_list \<Rightarrow>
                     fold
                       (\<lambda>(ref_time, song_index) song_matches.
                          case map_of song_matches song_index of
                            None \<Rightarrow>
                              AList.update song_index
                                ([] @ [(hash_value, sample_time, ref_time)]) song_matches
                          | Some matches \<Rightarrow>
                              AList.update song_index
                                (matches @ [(hash_value, sample_time, ref_time)]) song_matches)
                       match_list song_matches)
              hashes [];
          song_scores =
            fold
              (\<lambda>(song_index, matches) song_scores.
                 let offset_scores =
                       fold
                         (\<lambda>(hash_value, sample_time, ref_time) offset_scores.
                            let delta = ref_time - sample_time
                            in case map_of offset_scores delta of
                                 None \<Rightarrow> AList.update delta (0 + 1) offset_scores
                               | Some score \<Rightarrow> AList.update delta (score + 1) offset_scores)
                         matches [];
                     max_score =
                       fold
                         (\<lambda>(offset, score) max_score.
                            if score > snd max_score then (offset, score) else max_score)
                         offset_scores (0, 0)
                 in AList.update song_index max_score song_scores)
              song_matches []
      in sorted_reverse (\<lambda>x. snd (snd x)) song_scores)"

section \<open>Auxiliary notions used in the statements\<close>

text \<open>The assignment \<^verbatim>\<open>d[k] = v\<close> on an item \<open>(k, v)\<close>.\<close>

definition dict_set :: "'k \<times> 'v \<Rightarrow> ('k \<times> 'v) list \<Rightarrow> ('k \<times> 'v) list" where
  "dict_set item d = AList.update (fst item) (snd item) d"

text \<open>
  The (anchor, target) pairs visited by the two nested loops of \<^const>\<open>create_hashes\<close>, in the
  order of the visits.
\<close>

definition candidate_pairs :: "landmark list \<Rightarrow> (landmark \<times> landmark) list" where
  "candidate_pairs cm =
     concat (map (\<lambda>idx. map (Pair (cm ! idx)) (take 100 (drop idx cm))) [0..<length cm])"

text \<open>A pair passes the filter when the \<^verbatim>\<open>continue\<close> is not taken.\<close>

definition valid_pair :: "landmark \<times> landmark \<Rightarrow> bool" where
  "valid_pair p =
     (case p of ((time, freq), (other_time, other_freq)) \<Rightarrow>
        \<not> (other_time - time \<le> 1 \<or> other_time - time > 10))"

definition pair_item :: "song_id \<Rightarrow> landmark \<times> landmark \<Rightarrow> int \<times> hash_entry" where
  "pair_item song_id p =
     (case p of ((time, freq), (other_time, other_freq)) \<Rightarrow>
        (hash_val freq other_freq (other_time - time), (time, song_id)))"

text \<open>The sequence of assignments \<^verbatim>\<open>hashes[hash_val] = (time, song_id)\<close> that are executed.\<close>

definition emitted :: "song_id \<Rightarrow> landmark list \<Rightarrow> (int \<times> hash_entry) list" where
  "emitted song_id cm = map (pair_item song_id) (filter valid_pair (candidate_pairs cm))"

text \<open>\<^verbatim>\<open>d.get(k, [])\<close>: the list stored under a key, empty when the key is absent.\<close>

definition lookup :: "('k \<times> 'v list) list \<Rightarrow> 'k \<Rightarrow> 'v list" where
  "lookup d k = (case map_of d k of None \<Rightarrow> [] | Some vs \<Rightarrow> vs)"

text \<open>
  Appending \<open>x\<close> to the list stored under \<open>k\<close>, creating the list when the key is new: the
  common shape of \<^const>\<open>add_match\<close> and \<^const>\<open>index_add\<close>.
\<close>

definition group_step :: "'k \<times> 'v \<Rightarrow> ('k \<times> 'v list) list \<Rightarrow> ('k \<times> 'v list) list" where
  "group_step item d =
     (case map_of d (fst item) of
        None \<Rightarrow> AList.update (fst item) ([] @ [snd item]) d
      | Some vs \<Rightarrow> AList.update (fst item) (vs @ [snd item]) d)"

text \<open>Incrementing the counter of an offset, as in \<^const>\<open>count_offset\<close>.\<close>

definition count_step :: "int \<Rightarrow> (int \<times> int) list \<Rightarrow> (int \<times> int) list" where
  "count_step delta offset_scores =
     (case map_of offset_scores delta of
        None \<Rightarrow> AList.update delta (0 + 1) offset_scores
      | Some score \<Rightarrow> AList.update delta (score + 1) offset_scores)"

text \<open>
  The matched triples, as the specification describes them: for a query item with hash \<open>h\<close>
  and time \<open>sample_time\<close>, one triple \<open>(h, sample_time, ref_time)\<close> for every reference
  occurrence \<open>(ref_time, song)\<close> stored under \<open>h\<close> in the index, tagged with its song.
\<close>

definition hash_matches :: "database \<Rightarrow> int \<times> hash_entry \<Rightarrow> (song_id \<times> match) list" where
  "hash_matches database item =
     map (\<lambda>entry. (snd entry, (fst item, fst (snd item), fst entry))) (lookup database (fst item))"

definition all_matches :: "hash_dict \<Rightarrow> database \<Rightarrow> (song_id \<times> match) list" where
  "all_matches hashes database = concat (map (hash_matches database) hashes)"

definition matched_triples :: "hash_dict \<Rightarrow> database \<Rightarrow> song_id \<Rightarrow> match list" where
  "matched_triples hashes database s =
     map snd (filter (\<lambda>x. fst x = s) (all_matches hashes database))"

definition offset_of :: "match \<Rightarrow> int" where
  "offset_of m = (case m of (hash_value, sample_time, ref_time) \<Rightarrow> ref_time - sample_time)"

text \<open>The number of triples with a given offset: the height of its histogram bucket.\<close>

definition offset_count :: "int \<Rightarrow> match list \<Rightarrow> int" where
  "offset_count d ts = int (length (filter (\<lambda>m. offset_of m = d) ts))"

text \<open>The query items whose hash is a key of the index.\<close>

definition colliding :: "hash_dict \<Rightarrow> database \<Rightarrow> (int \<times> hash_entry) list" where
  "colliding hashes database = filter (\<lambda>item. map_of database (fst item) \<noteq> None) hashes"

text \<open>The number of reference occurrences stored in an index, over all hashes.\<close>

definition total_entries :: "('k \<times> 'v list) list \<Rightarrow> nat" where
  "total_entries d = sum_list (map (\<lambda>item. length (snd item)) d)"

text \<open>The same item with another song identifier.\<close>

definition retag :: "song_id \<Rightarrow> int \<times> hash_entry \<Rightarrow> int \<times> hash_entry" where
  "retag sid item = (fst item, (fst (snd item), sid))"

text \<open>Sample inputs on which the statements below are evaluated.\<close>

definition query_example :: hash_dict where
  "query_example = [(1, (0, None)), (2, (1, None)), (3, (5, None))]"

definition index_example :: database where
  "index_example =
     [(1, [(2, Some 0), (3, Some 1)]), (2, [(11, Some 0)]), (3, [(15, Some 0)])]"

definition disjoint_index_example :: database where
  "disjoint_index_example = [(99, [(0, Some 0)])]"

definition small_example :: "landmark list" where
  "small_example = [(0, 440), (1, 880), (2, 440), (3, 24000)]"

definition small_example_prefix :: "landmark list" where
  "small_example_prefix = [(0, 440), (1, 880), (2, 440)]"

definition corpus_example :: "landmark list list" where
  "corpus_example = [small_example_prefix, small_example]"

definition window_example :: "landmark list" where
  "window_example = (0, 1000) # replicate 99 (1, 1000) @ [(2, 1000)]"

text \<open>Stand-ins for the library functions, for evaluating the extractor on a small input.\<close>

definition example_stft :: "int list \<Rightarrow> int \<Rightarrow> int \<Rightarrow> rat list \<times> nat list list" where
  "example_stft padded_audio sample_rate n = ([0, 2, 4, 6], [[1, 3, 2], [2]])"

definition example_find_peaks :: "nat list \<Rightarrow> nat list \<times> rat list" where
  "example_find_peaks window = (window, map of_nat window)"

definition example_argpartition :: "rat list \<Rightarrow> int \<Rightarrow> nat list" where
  "example_argpartition a kth = [0..<length a]"

section \<open>Dictionaries filled by a loop of assignments\<close>

lemma set_update_subset: "set (AList.update k v al) \<subseteq> insert (k, v) (set al)"
  by (induction al) auto

lemma fold_dict_set_distinct:
  "distinct (map fst acc) \<Longrightarrow> distinct (map fst (fold dict_set kvs acc))"
  by (induction kvs arbitrary: acc) (simp_all add: dict_set_def distinct_update)

lemma fold_dict_set_keys:
  "fst ` set (fold dict_set kvs acc) = fst ` set acc \<union> fst ` set kvs"
  by (induction kvs arbitrary: acc) (auto simp: dict_set_def dom_update)

lemma fold_dict_set_subset:
  "set (fold dict_set kvs acc) \<subseteq> set acc \<union> set kvs"
proof (induction kvs arbitrary: acc)
  case Nil
  show ?case by simp
next
  case (Cons kv kvs)
  have "set (fold dict_set kvs (dict_set kv acc)) \<subseteq> set (dict_set kv acc) \<union> set kvs"
    by (rule Cons.IH)
  moreover have "set (dict_set kv acc) \<subseteq> insert kv (set acc)"
    using set_update_subset [of "fst kv" "snd kv" acc] by (simp add: dict_set_def)
  ultimately show ?case by auto
qed

section \<open>The loops of \<^verbatim>\<open>create_hashes\<close> as one sequence of assignments\<close>

lemma inner_fold:
  "fold (inner_step time freq sid) targets acc =
   fold dict_set (map (pair_item sid) (filter valid_pair (map (Pair (time, freq)) targets))) acc"
  by (induction targets arbitrary: acc)
     (auto simp: inner_step_def valid_pair_def pair_item_def dict_set_def Let_def)

lemma outer_fold:
  "fold (outer_step cm sid) idxs acc =
   fold dict_set (map (pair_item sid) (filter valid_pair
     (concat (map (\<lambda>idx. map (Pair (cm ! idx)) (take 100 (drop idx cm))) idxs)))) acc"
proof (induction idxs arbitrary: acc)
  case Nil
  show ?case by simp
next
  case (Cons idx idxs)
  have step: "outer_step cm sid idx acc =
      fold dict_set (map (pair_item sid) (filter valid_pair
        (map (Pair (cm ! idx)) (take 100 (drop idx cm))))) acc"
    by (cases "cm ! idx") (simp add: outer_step_def inner_fold)
  have "fold (outer_step cm sid) (idx # idxs) acc =
        fold (outer_step cm sid) idxs (outer_step cm sid idx acc)"
    by simp
  also have "\<dots> = fold dict_set (map (pair_item sid) (filter valid_pair
     (concat (map (\<lambda>idx. map (Pair (cm ! idx)) (take 100 (drop idx cm))) idxs))))
       (outer_step cm sid idx acc)"
    by (rule Cons.IH)
  finally show ?case
    by (simp add: step)
qed

lemma create_hashes_emitted:
  "create_hashes cm sid = fold dict_set (emitted sid cm) []"
  by (simp add: create_hashes_def outer_fold emitted_def candidate_pairs_def)

lemma create_hashes_distinct: "distinct (map fst (create_hashes cm sid))"
  by (simp add: create_hashes_emitted fold_dict_set_distinct)

lemma in_set_take_drop:
  "x \<in> set (take n (drop i xs)) \<longleftrightarrow> (\<exists>j. i \<le> j \<and> j < i + n \<and> j < length xs \<and> x = xs ! j)"
proof
  assume "x \<in> set (take n (drop i xs))"
  then obtain k where k: "k < length (take n (drop i xs))" "take n (drop i xs) ! k = x"
    by (auto simp: in_set_conv_nth)
  then have "k < n" "i + k < length xs" by auto
  moreover from k have "x = xs ! (i + k)" by auto
  ultimately show "\<exists>j. i \<le> j \<and> j < i + n \<and> j < length xs \<and> x = xs ! j"
    by (intro exI [of _ "i + k"]) simp
next
  assume "\<exists>j. i \<le> j \<and> j < i + n \<and> j < length xs \<and> x = xs ! j"
  then obtain j where j: "i \<le> j" "j < i + n" "j < length xs" "x = xs ! j" by blast
  then have "j - i < length (take n (drop i xs))" by auto
  moreover from j have "take n (drop i xs) ! (j - i) = x" by auto
  ultimately show "x \<in> set (take n (drop i xs))"
    by (auto simp: in_set_conv_nth)
qed

lemma in_candidate_pairs:
  "p \<in> set (candidate_pairs cm) \<longleftrightarrow>
     (\<exists>i j. i < length cm \<and> i \<le> j \<and> j < i + 100 \<and> j < length cm \<and> p = (cm ! i, cm ! j))"
proof
  assume "p \<in> set (candidate_pairs cm)"
  then obtain i y where "i < length cm" "y \<in> set (take 100 (drop i cm))" "p = (cm ! i, y)"
    by (auto simp: candidate_pairs_def)
  then show "\<exists>i j. i < length cm \<and> i \<le> j \<and> j < i + 100 \<and> j < length cm \<and> p = (cm ! i, cm ! j)"
    unfolding in_set_take_drop by blast
next
  assume "\<exists>i j. i < length cm \<and> i \<le> j \<and> j < i + 100 \<and> j < length cm \<and> p = (cm ! i, cm ! j)"
  then obtain i j where ij: "i < length cm" "i \<le> j" "j < i + 100" "j < length cm"
    "p = (cm ! i, cm ! j)" by blast
  then have "cm ! j \<in> set (take 100 (drop i cm))"
    unfolding in_set_take_drop by blast
  with ij show "p \<in> set (candidate_pairs cm)"
    by (auto simp: candidate_pairs_def)
qed

lemma in_emitted:
  "(h, e) \<in> set (emitted sid cm) \<longleftrightarrow>
     (\<exists>i j. i < length cm \<and> i \<le> j \<and> j < i + 100 \<and> j < length cm \<and>
        2 \<le> fst (cm ! j) - fst (cm ! i) \<and> fst (cm ! j) - fst (cm ! i) \<le> 10 \<and>
        h = hash_val (snd (cm ! i)) (snd (cm ! j)) (fst (cm ! j) - fst (cm ! i)) \<and>
        e = (fst (cm ! i), sid))"
proof -
  have pair: "valid_pair (cm ! i, cm ! j) \<and> (h, e) = pair_item sid (cm ! i, cm ! j) \<longleftrightarrow>
        2 \<le> fst (cm ! j) - fst (cm ! i) \<and> fst (cm ! j) - fst (cm ! i) \<le> 10 \<and>
        h = hash_val (snd (cm ! i)) (snd (cm ! j)) (fst (cm ! j) - fst (cm ! i)) \<and>
        e = (fst (cm ! i), sid)" for i j
    by (cases "cm ! i"; cases "cm ! j") (auto simp: valid_pair_def pair_item_def)
  have "(h, e) \<in> set (emitted sid cm) \<longleftrightarrow>
        (\<exists>p. p \<in> set (candidate_pairs cm) \<and> valid_pair p \<and> (h, e) = pair_item sid p)"
    by (force simp: emitted_def)
  also have "\<dots> \<longleftrightarrow> (\<exists>i j. i < length cm \<and> i \<le> j \<and> j < i + 100 \<and> j < length cm \<and>
        valid_pair (cm ! i, cm ! j) \<and> (h, e) = pair_item sid (cm ! i, cm ! j))"
    unfolding in_candidate_pairs by blast
  also have "\<dots> \<longleftrightarrow> (\<exists>i j. i < length cm \<and> i \<le> j \<and> j < i + 100 \<and> j < length cm \<and>
        2 \<le> fst (cm ! j) - fst (cm ! i) \<and> fst (cm ! j) - fst (cm ! i) \<le> 10 \<and>
        h = hash_val (snd (cm ! i)) (snd (cm ! j)) (fst (cm ! j) - fst (cm ! i)) \<and>
        e = (fst (cm ! i), sid))"
    using pair by simp
  finally show ?thesis .
qed

section \<open>Lists grouped under a key\<close>

lemma lookup_Nil: "lookup [] k = []"
  by (simp add: lookup_def)

lemma lookup_group_step:
  "lookup (group_step item d) k = (if k = fst item then lookup d k @ [snd item] else lookup d k)"
  by (simp add: group_step_def lookup_def update_conv' split: option.splits)

lemma lookup_fold_group_step:
  "lookup (fold group_step kxs acc) k = lookup acc k @ map snd (filter (\<lambda>p. fst p = k) kxs)"
  by (induction kxs arbitrary: acc) (simp_all add: lookup_group_step)

lemma keys_group_step:
  "fst ` set (group_step item d) = insert (fst item) (fst ` set d)"
  by (simp add: group_step_def dom_update split: option.splits)

lemma keys_fold_group_step:
  "fst ` set (fold group_step kxs acc) = fst ` set acc \<union> fst ` set kxs"
  by (induction kxs arbitrary: acc) (auto simp: keys_group_step)

lemma distinct_group_step:
  "distinct (map fst d) \<Longrightarrow> distinct (map fst (group_step item d))"
  by (simp add: group_step_def distinct_update split: option.splits)

lemma distinct_fold_group_step:
  "distinct (map fst acc) \<Longrightarrow> distinct (map fst (fold group_step kxs acc))"
  by (induction kxs arbitrary: acc) (simp_all add: distinct_group_step)

lemma in_fold_group_step:
  assumes "(k, vs) \<in> set (fold group_step kxs [])"
  shows "vs = map snd (filter (\<lambda>p. fst p = k) kxs) \<and> vs \<noteq> []"
proof -
  have d: "distinct (map fst (fold group_step kxs []))"
    by (simp add: distinct_fold_group_step)
  with assms have "map_of (fold group_step kxs []) k = Some vs" by simp
  then have "lookup (fold group_step kxs []) k = vs" by (simp add: lookup_def)
  then have vs: "vs = map snd (filter (\<lambda>p. fst p = k) kxs)"
    by (simp add: lookup_fold_group_step lookup_Nil)
  from assms have "k \<in> fst ` set (fold group_step kxs [])" by force
  then have "k \<in> fst ` set kxs" by (simp add: keys_fold_group_step)
  then have "filter (\<lambda>p. fst p = k) kxs \<noteq> []"
    by (auto simp: filter_empty_conv)
  with vs show ?thesis by simp
qed

lemma add_match_group_step:
  "add_match h st entry = group_step (snd entry, (h, st, fst entry))"
  by (cases entry) (simp add: add_match_def group_step_def fun_eq_iff split: option.splits)

lemma index_add_group_step: "index_add = group_step"
  by (auto simp: index_add_def group_step_def fun_eq_iff split: option.splits)

lemma lookup_step_group:
  "lookup_step database item sm = fold group_step (hash_matches database item) sm"
proof -
  obtain h st x where item: "item = (h, (st, x))" by (cases item) auto
  have "fold (add_match h st) ml sm =
        fold group_step (map (\<lambda>entry. (snd entry, (h, st, fst entry))) ml) sm" for ml
    by (induction ml arbitrary: sm) (simp_all add: add_match_group_step)
  then show ?thesis
    by (simp add: lookup_step_def hash_matches_def lookup_def item split: option.splits)
qed

lemma collect_matches_group:
  "collect_matches hashes database = fold group_step (all_matches hashes database) []"
proof -
  have "fold (lookup_step database) hashes sm =
        fold group_step (concat (map (hash_matches database) hashes)) sm" for sm
    by (induction hashes arbitrary: sm) (simp_all add: lookup_step_group)
  then show ?thesis
    by (simp add: collect_matches_def all_matches_def)
qed

lemma in_collect_matches:
  assumes "(s, ms) \<in> set (collect_matches hashes database)"
  shows "ms = matched_triples hashes database s \<and> ms \<noteq> []"
proof -
  from assms have "(s, ms) \<in> set (fold group_step (all_matches hashes database) [])"
    by (simp add: collect_matches_group)
  from in_fold_group_step [OF this] show ?thesis
    by (auto simp: matched_triples_def)
qed

section \<open>The offset histogram\<close>

lemma count_offset_step: "count_offset m = count_step (offset_of m)"
  by (cases m) (simp add: count_offset_def count_step_def offset_of_def fun_eq_iff Let_def)

lemma offset_histogram_fold:
  "offset_histogram ms = fold count_step (map offset_of ms) []"
proof -
  have "fold count_offset ms acc = fold count_step (map offset_of ms) acc" for acc
    by (induction ms arbitrary: acc) (simp_all add: count_offset_step)
  then show ?thesis by (simp add: offset_histogram_def)
qed

lemma keys_count_step:
  "map fst (count_step d os) = (if d \<in> set (map fst os) then map fst os else map fst os @ [d])"
  by (auto simp: count_step_def update_keys map_of_eq_None_iff split: option.splits)

lemma map_of_count_step:
  "map_of (count_step d os) x =
     (if x = d then Some ((case map_of os d of None \<Rightarrow> 0 | Some c \<Rightarrow> c) + 1) else map_of os x)"
  by (simp add: count_step_def update_conv' split: option.splits)

lemma distinct_count_step:
  "distinct (map fst os) \<Longrightarrow> distinct (map fst (count_step d os))"
  by (simp add: count_step_def distinct_update split: option.splits)

lemma histogram_keys_distinct: "distinct (map fst (fold count_step ds []))"
  by (induction ds rule: rev_induct) (simp_all add: distinct_count_step)

lemma keys_set_count_step: "fst ` set (count_step d os) = insert d (fst ` set os)"
  by (simp add: count_step_def dom_update split: option.splits)

lemma histogram_keys_set: "fst ` set (fold count_step ds []) = set ds"
  by (induction ds rule: rev_induct) (simp_all add: keys_set_count_step)

lemma histogram_map_of:
  "map_of (fold count_step ds []) x =
     (if x \<in> set ds then Some (int (length (filter (\<lambda>d. d = x) ds))) else None)"
proof (induction ds arbitrary: x rule: rev_induct)
  case Nil
  show ?case by simp
next
  case (snoc d ds)
  show ?case
    by (auto simp: map_of_count_step snoc.IH filter_empty_conv split: option.splits)
qed

lemma histogram_keys_before:
  "set (takeWhile (\<lambda>d. d \<noteq> x) (map fst (fold count_step ds []))) =
   set (takeWhile (\<lambda>d. d \<noteq> x) ds)"
proof (induction ds rule: rev_induct)
  case Nil
  show ?case by simp
next
  case (snoc d ds)
  let ?P = "\<lambda>d. d \<noteq> x"
  let ?ks = "map fst (fold count_step ds [])"
  have ks: "fst ` set (fold count_step ds []) = set ds" by (rule histogram_keys_set)
  have keys': "map fst (fold count_step (ds @ [d]) []) = (if d \<in> set ds then ?ks else ?ks @ [d])"
    using ks by (simp add: keys_count_step)
  show ?case
  proof (cases "x \<in> set ds")
    case True
    then have in_ks: "x \<in> set ?ks" using ks by simp
    have "takeWhile ?P (ds @ [d]) = takeWhile ?P ds"
      by (rule takeWhile_append1 [OF True]) simp
    moreover have "takeWhile ?P (?ks @ [d]) = takeWhile ?P ?ks"
      by (rule takeWhile_append1 [OF in_ks]) simp
    ultimately show ?thesis
      unfolding keys' using snoc.IH by (cases "d \<in> set ds") simp_all
  next
    case False
    have L: "takeWhile ?P (ds @ [d]) = ds @ takeWhile ?P [d]"
      by (rule takeWhile_append2) (use False in auto)
    have K: "takeWhile ?P (?ks @ [d]) = ?ks @ takeWhile ?P [d]"
      by (rule takeWhile_append2) (use False ks in auto)
    have K0: "takeWhile ?P ?ks = ?ks"
      using False ks by auto
    have S: "set ?ks = set ds" using ks by simp
    show ?thesis
    proof (cases "d \<in> set ds")
      case True
      with False have "d \<noteq> x" by auto
      have "set (takeWhile ?P (map fst (fold count_step (ds @ [d]) []))) = set (takeWhile ?P ?ks)"
        by (simp only: keys' True if_True)
      also have "\<dots> = set ds"
        by (simp only: K0 S)
      also have "\<dots> = set (takeWhile ?P (ds @ [d]))"
        using True \<open>d \<noteq> x\<close> by (simp only: L) auto
      finally show ?thesis .
    next
      case notin: False
      have "set (takeWhile ?P (map fst (fold count_step (ds @ [d]) []))) =
            set (takeWhile ?P (?ks @ [d]))"
        by (simp only: keys' notin if_False)
      also have "\<dots> = set ds \<union> set (takeWhile ?P [d])"
        by (simp only: K set_append S)
      also have "\<dots> = set (takeWhile ?P (ds @ [d]))"
        by (simp only: L set_append)
      finally show ?thesis .
    qed
  qed
qed

section \<open>The scan for the largest bucket\<close>

lemma max_scan:
  "snd acc \<le> snd (fold max_step xs acc) \<and>
   (\<forall>x\<in>set xs. snd x \<le> snd (fold max_step xs acc)) \<and>
   (fold max_step xs acc = acc \<or>
    (fold max_step xs acc \<in> set xs \<and> snd acc < snd (fold max_step xs acc) \<and>
     (\<forall>x\<in>set (takeWhile (\<lambda>p. fst p \<noteq> fst (fold max_step xs acc)) xs).
        snd x < snd (fold max_step xs acc))))"
proof (induction xs rule: rev_induct)
  case Nil
  show ?case by simp
next
  case (snoc x xs)
  let ?r = "fold max_step xs acc"
  have step: "max_step x ?r = (if snd x > snd ?r then x else ?r)"
    by (cases x) (simp add: max_step_def)
  show ?case
  proof (cases "snd x > snd ?r")
    case True
    then have r: "fold max_step (xs @ [x]) acc = x" by (simp add: step)
    have "\<forall>y\<in>set xs. snd y < snd x"
      using snoc.IH True by auto
    moreover have "set (takeWhile (\<lambda>p. fst p \<noteq> fst x) (xs @ [x])) \<subseteq> set xs"
      by (auto simp: takeWhile_append dest: set_takeWhileD)
    ultimately show ?thesis
      unfolding r using snoc.IH True by auto
  next
    case False
    then have r: "fold max_step (xs @ [x]) acc = ?r" by (simp add: step)
    show ?thesis
    proof (cases "?r = acc")
      case True
      then show ?thesis
        unfolding r using snoc.IH False by auto
    next
      case neq: False
      then have in_xs: "?r \<in> set xs" and lt: "snd acc < snd ?r"
        and before: "\<forall>y\<in>set (takeWhile (\<lambda>p. fst p \<noteq> fst ?r) xs). snd y < snd ?r"
        using snoc.IH by auto
      have "takeWhile (\<lambda>p. fst p \<noteq> fst ?r) (xs @ [x]) = takeWhile (\<lambda>p. fst p \<noteq> fst ?r) xs"
        by (rule takeWhile_append1 [OF in_xs]) simp
      then show ?thesis
        unfolding r using snoc.IH False in_xs lt before by auto
    qed
  qed
qed

section \<open>The result of \<^verbatim>\<open>score_songs\<close>\<close>

lemma offset_count_map:
  "offset_count d ts = int (length (filter (\<lambda>d'. d' = d) (map offset_of ts)))"
  by (simp add: offset_count_def filter_map comp_def)

lemma in_histogram:
  assumes "(d, c) \<in> set (offset_histogram ts)"
  shows "d \<in> offset_of ` set ts \<and> c = offset_count d ts \<and> 1 \<le> c"
proof -
  let ?ds = "map offset_of ts"
  have "map_of (fold count_step ?ds []) d = Some c"
    using assms histogram_keys_distinct [of ?ds] by (simp add: offset_histogram_fold)
  then have d: "d \<in> set ?ds" and c: "c = int (length (filter (\<lambda>d'. d' = d) ?ds))"
    by (auto simp: histogram_map_of split: if_splits)
  from d have "filter (\<lambda>d'. d' = d) ?ds \<noteq> []"
    by (auto simp: filter_empty_conv)
  then have "0 < length (filter (\<lambda>d'. d' = d) ?ds)"
    by (simp only: length_greater_0_conv not_False_eq_True)
  then have "1 \<le> c" unfolding c by linarith
  moreover have "c = offset_count d ts" unfolding c offset_count_map ..
  ultimately show ?thesis using d by auto
qed

lemma histogram_nonempty: "ts \<noteq> [] \<Longrightarrow> offset_histogram ts \<noteq> []"
  using histogram_keys_set [of "map offset_of ts"]
  by (auto simp: offset_histogram_fold)

lemma max_score_histogram:
  assumes "ts \<noteq> []"
  shows "fst (max_score (offset_histogram ts)) \<in> offset_of ` set ts \<and>
         snd (max_score (offset_histogram ts)) =
           offset_count (fst (max_score (offset_histogram ts))) ts \<and>
         (\<forall>d. offset_count d ts \<le> snd (max_score (offset_histogram ts))) \<and>
         (\<forall>d\<in>set (takeWhile (\<lambda>d. d \<noteq> fst (max_score (offset_histogram ts)))
                     (map offset_of ts)).
            offset_count d ts < snd (max_score (offset_histogram ts)))"
proof -
  let ?os = "offset_histogram ts"
  let ?r = "max_score ?os"
  have scan: "\<forall>x\<in>set ?os. snd x \<le> snd ?r"
    "?r = (0, 0) \<or> (?r \<in> set ?os \<and>
        (\<forall>x\<in>set (takeWhile (\<lambda>p. fst p \<noteq> fst ?r) ?os). snd x < snd ?r))"
    using max_scan [of "(0, 0)" ?os] by (auto simp: max_score_def)
  obtain x where x: "x \<in> set ?os"
    using histogram_nonempty [OF assms] by (cases ?os) auto
  then have "1 \<le> snd x" using in_histogram [of "fst x" "snd x" ts] by simp
  with scan(1) x have pos: "1 \<le> snd ?r" by force
  with scan(2) have r_in: "?r \<in> set ?os"
    and before: "\<forall>x\<in>set (takeWhile (\<lambda>p. fst p \<noteq> fst ?r) ?os). snd x < snd ?r"
    by auto
  from r_in have r: "fst ?r \<in> offset_of ` set ts" "snd ?r = offset_count (fst ?r) ts"
    using in_histogram [of "fst ?r" "snd ?r" ts] by simp_all
  have le: "offset_count d ts \<le> snd ?r" for d
  proof (cases "d \<in> offset_of ` set ts")
    case True
    then have "d \<in> fst ` set ?os"
      using histogram_keys_set [of "map offset_of ts"] by (simp add: offset_histogram_fold)
    then obtain c where dc: "(d, c) \<in> set ?os" by auto
    with in_histogram [OF dc] scan(1) show ?thesis by force
  next
    case False
    then have "filter (\<lambda>m. offset_of m = d) ts = []"
      by (auto simp: filter_empty_conv)
    then have "offset_count d ts = 0" by (simp add: offset_count_def)
    with pos show ?thesis by simp
  qed
  have lt: "offset_count d ts < snd ?r"
    if "d \<in> set (takeWhile (\<lambda>d. d \<noteq> fst ?r) (map offset_of ts))" for d
  proof -
    from that have "d \<in> set (takeWhile (\<lambda>d. d \<noteq> fst ?r) (map fst ?os))"
      using histogram_keys_before [of "fst ?r" "map offset_of ts"]
      by (simp add: offset_histogram_fold)
    then have "d \<in> fst ` set (takeWhile (\<lambda>p. fst p \<noteq> fst ?r) ?os)"
      by (simp add: takeWhile_map comp_def)
    then obtain c where dc: "(d, c) \<in> set (takeWhile (\<lambda>p. fst p \<noteq> fst ?r) ?os)" by auto
    then have "(d, c) \<in> set ?os" by (rule set_takeWhileD [THEN conjunct1])
    from in_histogram [OF this] before dc show ?thesis by force
  qed
  from r le lt show ?thesis by blast
qed

lemma score_step_dict_set:
  "score_step item = dict_set (fst item, max_score (offset_histogram (snd item)))"
  by (cases item) (simp add: score_step_def dict_set_def fun_eq_iff)

lemma song_scores_fold:
  "song_scores sm =
     fold dict_set (map (\<lambda>item. (fst item, max_score (offset_histogram (snd item)))) sm) []"
proof -
  have "fold score_step sm acc =
        fold dict_set (map (\<lambda>item. (fst item, max_score (offset_histogram (snd item)))) sm) acc"
    for acc
    by (induction sm arbitrary: acc) (simp_all add: score_step_dict_set)
  then show ?thesis by (simp add: song_scores_def)
qed

lemma set_score_songs:
  "set (score_songs hashes database) = set (song_scores (collect_matches hashes database))"
  by (simp add: score_songs_def sorted_reverse_def)

lemma in_score_songs:
  assumes "(s, r) \<in> set (score_songs hashes database)"
  shows "matched_triples hashes database s \<noteq> [] \<and>
         r = max_score (offset_histogram (matched_triples hashes database s))"
proof -
  let ?sm = "collect_matches hashes database"
  have "(s, r) \<in> set (map (\<lambda>item. (fst item, max_score (offset_histogram (snd item)))) ?sm)"
    using assms fold_dict_set_subset
      [of "map (\<lambda>item. (fst item, max_score (offset_histogram (snd item)))) ?sm" "[]"]
    by (auto simp: set_score_songs song_scores_fold)
  then obtain ms where ms: "(s, ms) \<in> set ?sm" "r = max_score (offset_histogram ms)"
    by auto
  from in_collect_matches [OF ms(1)] ms(2) show ?thesis by auto
qed

lemma sorted_reverse_sorted:
  "sorted_wrt (\<lambda>a b. key b \<le> key a) (sorted_reverse key xs)"
proof -
  have "sorted (map key (sort_key key (rev xs)))" by simp
  then have "sorted_wrt (\<lambda>a b. key a \<le> key b) (sort_key key (rev xs))"
    by (simp add: sorted_map)
  then show ?thesis
    by (simp add: sorted_reverse_def sorted_wrt_rev)
qed

lemma collect_matches_empty:
  assumes "\<forall>item\<in>set hashes. lookup database (fst item) = []"
  shows "collect_matches hashes database = []"
proof -
  have "hash_matches database item = []" if "item \<in> set hashes" for item
    using assms that by (simp add: hash_matches_def)
  then have "all_matches hashes database = []"
    by (simp add: all_matches_def)
  then show ?thesis by (simp add: collect_matches_group)
qed

section \<open>The index built by the main script\<close>

lemma add_song_group:
  "add_song song database = fold group_step (create_hashes (snd song) (Some (fst song))) database"
  by (cases song) (simp add: add_song_def index_add_group_step)

lemma lookup_fold_add_song:
  "lookup (fold add_song songs database) h =
     lookup database h @
     concat (map (\<lambda>song. map snd (filter (\<lambda>p. fst p = h)
                    (create_hashes (snd song) (Some (fst song))))) songs)"
  by (induction songs arbitrary: database) (simp_all add: add_song_group lookup_fold_group_step)

lemma total_entries_Nil: "total_entries [] = 0"
  by (simp add: total_entries_def)

lemma total_update_new:
  "map_of d k = None \<Longrightarrow> total_entries (AList.update k vs d) = total_entries d + length vs"
  by (induction d) (auto simp: total_entries_def)

lemma total_update_old:
  "map_of d k = Some vs \<Longrightarrow>
     total_entries (AList.update k (vs @ [x]) d) = total_entries d + 1"
  by (induction d) (auto simp: total_entries_def)

lemma total_group_step: "total_entries (group_step item d) = total_entries d + 1"
  by (cases "map_of d (fst item)") (simp_all add: group_step_def total_update_new total_update_old)

lemma total_fold_group_step:
  "total_entries (fold group_step kxs d) = total_entries d + length kxs"
  by (induction kxs arbitrary: d) (simp_all add: total_group_step)

lemma total_fold_add_song:
  "total_entries (fold add_song songs database) =
     total_entries database +
     sum_list (map (\<lambda>song. length (create_hashes (snd song) (Some (fst song)))) songs)"
  by (induction songs arbitrary: database) (simp_all add: add_song_group total_fold_group_step)

section \<open>Matching a recording against its own index\<close>

lemma update_retag:
  "AList.update k (t, sid') (map (retag sid') al) = map (retag sid') (AList.update k (t, sid) al)"
  by (induction al) (auto simp: retag_def)

lemma fold_dict_set_retag:
  "fold dict_set (map (retag sid') kvs) (map (retag sid') acc) =
   map (retag sid') (fold dict_set kvs acc)"
proof (induction kvs arbitrary: acc)
  case Nil
  show ?case by simp
next
  case (Cons kv kvs)
  obtain k t sid where kv: "kv = (k, (t, sid))" by (cases kv) auto
  have "dict_set (retag sid' kv) (map (retag sid') acc) = map (retag sid') (dict_set kv acc)"
    using update_retag [of k t sid' acc sid] by (simp add: dict_set_def retag_def kv)
  then show ?case
    by (simp add: Cons.IH)
qed

lemma emitted_retag: "emitted sid' cm = map (retag sid') (emitted sid cm)"
  by (auto simp: emitted_def pair_item_def retag_def split: prod.splits)

lemma create_hashes_retag: "create_hashes cm sid' = map (retag sid') (create_hashes cm sid)"
  using fold_dict_set_retag [of sid' "emitted sid cm" "[]"]
  by (simp add: create_hashes_emitted emitted_retag [of sid' cm sid])

lemma create_hashes_song:
  assumes "item \<in> set (create_hashes cm sid)"
  shows "snd (snd item) = sid"
proof -
  have "item \<in> set (emitted sid cm)"
    using assms fold_dict_set_subset [of "emitted sid cm" "[]"]
    by (auto simp: create_hashes_emitted)
  then show ?thesis
    by (auto simp: emitted_def pair_item_def split: prod.splits)
qed

lemma filter_key_distinct:
  "distinct (map fst xs) \<Longrightarrow> item \<in> set xs \<Longrightarrow> filter (\<lambda>p. fst p = fst item) xs = [item]"
proof (induction xs)
  case Nil
  then show ?case by simp
next
  case (Cons x xs)
  show ?case
  proof (cases "item = x")
    case True
    have "fst x \<notin> fst ` set xs" using Cons.prems(1) by simp
    then have "\<forall>p\<in>set xs. fst p \<noteq> fst x" by (metis imageI)
    then have "filter (\<lambda>p. fst p = fst x) xs = []"
      by (simp add: filter_empty_conv)
    with True show ?thesis by simp
  next
    case False
    with Cons.prems have in_xs: "item \<in> set xs" by simp
    with Cons.prems(1) have "fst x \<noteq> fst item" by force
    with Cons.IH in_xs Cons.prems(1) show ?thesis by simp
  qed
qed

lemma fold_group_same_key:
  "fold group_step (map (Pair k) xs) [(k, ys)] = [(k, ys @ xs)]"
  by (induction xs arbitrary: ys) (simp_all add: group_step_def)

lemma fold_group_same_key_Nil:
  "xs \<noteq> [] \<Longrightarrow> fold group_step (map (Pair k) xs) [] = [(k, xs)]"
  using fold_group_same_key [of k "tl xs" "[hd xs]"]
  by (cases xs) (simp_all add: group_step_def)

lemma histogram_constant:
  "fold count_step (replicate n d) [(d, c)] = [(d, c + int n)]"
  by (induction n arbitrary: c) (simp_all add: count_step_def)

lemma histogram_constant_Nil:
  "0 < n \<Longrightarrow> fold count_step (replicate n d) [] = [(d, int n)]"
  using histogram_constant [of "n - 1" d 1]
  by (cases n) (simp_all add: count_step_def)

section \<open>Packing three 10-bit fields\<close>

lemma pack_fields:
  fixes a b c :: int
  assumes "0 \<le> a" "a < 2 ^ 10" "0 \<le> b" "b < 2 ^ 10" "0 \<le> c" "c < 2 ^ 10"
  shows "0 \<le> (a OR push_bit 10 b OR push_bit 20 c)"
    and "a OR push_bit 10 b OR push_bit 20 c < 2 ^ 30"
    and "take_bit 10 (a OR push_bit 10 b OR push_bit 20 c) = a"
    and "take_bit 10 (drop_bit 10 (a OR push_bit 10 b OR push_bit 20 c)) = b"
    and "take_bit 10 (drop_bit 20 (a OR push_bit 10 b OR push_bit 20 c)) = c"
proof -
  let ?h = "a OR push_bit 10 b OR push_bit 20 c"
  have a: "take_bit 10 a = a" and b: "take_bit 10 b = b" and c: "take_bit 10 c = c"
    using assms by (simp_all add: take_bit_int_eq_self)
  show "0 \<le> ?h" using assms by simp
  have "take_bit 30 (take_bit 10 a OR push_bit 10 (take_bit 10 b) OR push_bit 20 (take_bit 10 c)) =
        take_bit 10 a OR push_bit 10 (take_bit 10 b) OR push_bit 20 (take_bit 10 c)"
    by (rule bit_eqI) (auto simp: bit_simps)
  then have "take_bit 30 ?h = ?h" by (simp only: a b c)
  then show "?h < 2 ^ 30"
    using take_bit_int_less_exp [of 30 ?h] by simp
  have "take_bit 10 (take_bit 10 a OR push_bit 10 (take_bit 10 b) OR push_bit 20 (take_bit 10 c)) =
        take_bit 10 a"
    by (rule bit_eqI) (auto simp: bit_simps)
  then show "take_bit 10 ?h = a" by (simp only: a b c)
  have "take_bit 10 (drop_bit 10
          (take_bit 10 a OR push_bit 10 (take_bit 10 b) OR push_bit 20 (take_bit 10 c))) =
        take_bit 10 b"
    by (rule bit_eqI) (auto simp: bit_simps)
  then show "take_bit 10 (drop_bit 10 ?h) = b" by (simp only: a b c)
  have "take_bit 10 (drop_bit 20
          (take_bit 10 a OR push_bit 10 (take_bit 10 b) OR push_bit 20 (take_bit 10 c))) =
        take_bit 10 c"
    by (rule bit_eqI) (auto simp: bit_simps)
  then show "take_bit 10 (drop_bit 20 ?h) = c" by (simp only: a b c)
qed

lemma scaled_frequency_range:
  assumes "0 \<le> f" "f < upper_frequency"
  shows "0 \<le> py_int (f / upper_frequency * 2 ^ frequency_bits)"
    and "py_int (f / upper_frequency * 2 ^ frequency_bits) < 2 ^ 10"
proof -
  let ?x = "f / upper_frequency * 2 ^ frequency_bits"
  have x0: "0 \<le> ?x" using assms by (simp add: upper_frequency_def)
  then have p: "py_int ?x = \<lfloor>?x\<rfloor>" by (simp add: py_int_def)
  show "0 \<le> py_int ?x" using x0 unfolding p by simp
  have "?x < 1024" using assms by (simp add: upper_frequency_def frequency_bits_def)
  then have "\<lfloor>?x\<rfloor> < 1024" by (simp add: floor_less_iff)
  then show "py_int ?x < 2 ^ 10" unfolding p by simp
qed

section \<open>Window size, padding and the landmarks of a window\<close>

lemma window_nonpos:
  assumes "sample_rate \<le> 0"
  shows "sample_window_size sample_rate \<le> 0"
proof -
  let ?t = "py_int (1 / 2 * of_int sample_rate)"
  have "(1 / 2 * of_int sample_rate :: rat) \<le> 0" using assms by simp
  then have t: "?t \<le> 0"
    by (auto simp: py_int_def ceiling_le_iff)
  show ?thesis
  proof (cases "?t = 0")
    case True
    then show ?thesis by (simp add: sample_window_size_def)
  next
    case False
    with t have "?t \<le> - 1" by simp
    moreover have "?t mod 2 \<le> 1" by presburger
    ultimately show ?thesis by (simp add: sample_window_size_def Let_def)
  qed
qed

lemma padding_negative:
  assumes "sample_window_size sample_rate < 0"
  shows "padding n sample_rate < 0"
  using neg_mod_bound [OF assms, of "int n"] by (simp add: padding_def)








section \<open>Claims about \<^verbatim>\<open>create_hashes\<close>\<close>

text \<open>
  C7. No hash emitted by \<^verbatim>\<open>create_hashes\<close> comes from a pair with time delta at most 1 or
  above 10: every item of the returned dictionary was assigned for an (anchor, target) pair of
  the constellation map whose time difference lies between 2 and 10, with the anchor's time
  and the given song identifier as its value.
\<close>

theorem create_hashes_time_delta:
  assumes "(h, e) \<in> set (create_hashes cm sid)"
  shows "\<exists>i j. i < length cm \<and> j < length cm \<and>
           2 \<le> fst (cm ! j) - fst (cm ! i) \<and> fst (cm ! j) - fst (cm ! i) \<le> 10 \<and>
           h = hash_val (snd (cm ! i)) (snd (cm ! j)) (fst (cm ! j) - fst (cm ! i)) \<and>
           e = (fst (cm ! i), sid)"
proof -
  have "(h, e) \<in> set (emitted sid cm)"
    using assms fold_dict_set_subset [of "emitted sid cm" "[]"]
    by (auto simp: create_hashes_emitted)
  then show ?thesis
    unfolding in_emitted by blast
qed

theorem create_hashes_time_delta_witness:
  "(2116627, (0, None)) \<in> set (create_hashes small_example None) \<and>
   (\<exists>i j. i < length small_example \<and> j < length small_example \<and>
      2 \<le> fst (small_example ! j) - fst (small_example ! i) \<and>
      fst (small_example ! j) - fst (small_example ! i) \<le> 10 \<and>
      2116627 = hash_val (snd (small_example ! i)) (snd (small_example ! j))
                  (fst (small_example ! j) - fst (small_example ! i)) \<and>
      (0::int, None::song_id) = (fst (small_example ! i), None))"
proof -
  have m: "(2116627, (0, None)) \<in> set (create_hashes small_example None)"
    by code_simp
  show ?thesis
    using m create_hashes_time_delta [OF m] by blast
qed

text \<open>
  C8, as stated, fails: the slice \<^verbatim>\<open>constellation_map[idx : idx + 100]\<close> starts at the anchor
  itself and ends at position \<open>idx + 99\<close>. In \<^const>\<open>window_example\<close> the only pair with an
  admissible time difference is (position 0, position 100), and no hash is produced.
\<close>

theorem create_hashes_window_counterexample:
  "length window_example = 101 \<and>
   window_example ! 0 = (0, 1000) \<and> window_example ! (0 + 100) = (2, 1000) \<and>
   create_hashes window_example None = []"
  by code_simp

text \<open>
  C8, amended. For the anchor at position \<open>i\<close> the candidates are the landmarks at positions
  \<open>i\<close> to \<open>i + 99\<close>: a value is a key of the result exactly when it is the packed value of
  a pair of positions \<open>i \<le> j < i + 100\<close> whose time difference lies between 2 and 10.
\<close>

theorem create_hashes_window:
  "h \<in> fst ` set (create_hashes cm sid) \<longleftrightarrow>
     (\<exists>i j. i < length cm \<and> i \<le> j \<and> j < i + 100 \<and> j < length cm \<and>
        2 \<le> fst (cm ! j) - fst (cm ! i) \<and> fst (cm ! j) - fst (cm ! i) \<le> 10 \<and>
        h = hash_val (snd (cm ! i)) (snd (cm ! j)) (fst (cm ! j) - fst (cm ! i)))"
proof -
  have "h \<in> fst ` set (create_hashes cm sid) \<longleftrightarrow> (\<exists>e. (h, e) \<in> set (emitted sid cm))"
    by (force simp: create_hashes_emitted fold_dict_set_keys)
  then show ?thesis
    unfolding in_emitted by blast
qed

theorem create_hashes_window_witness:
  "3190823 \<in> fst ` set (create_hashes small_example None) \<and>
   (\<exists>i j. i < length small_example \<and> i \<le> j \<and> j < i + 100 \<and> j < length small_example \<and>
      2 \<le> fst (small_example ! j) - fst (small_example ! i) \<and>
      fst (small_example ! j) - fst (small_example ! i) \<le> 10 \<and>
      3190823 = hash_val (snd (small_example ! i)) (snd (small_example ! j))
                  (fst (small_example ! j) - fst (small_example ! i)))"
proof -
  have m: "3190823 \<in> fst ` set (create_hashes small_example None)"
    by code_simp
  show ?thesis
    using m create_hashes_window [of 3190823 small_example None] by blast
qed

text \<open>
  C3, as stated, fails: \<^verbatim>\<open>create_hashes\<close> neither clamps nor masks nor rejects. A frequency of
  23500 Hz scales to 1046, which does not fit in 10 bits: in the hash the anchor field reads
  22, the target field 23 and the time field 3, although the time difference is 2. With
  frequencies of 23552000 Hz the hash is not below \<open>2 ^ 30\<close>.
\<close>

theorem hash_range_counterexample:
  "create_hashes [(0, 23500), (2, 23500)] None = [(3169302, (0, None))] \<and>
   py_int (23500 / upper_frequency * 2 ^ frequency_bits) = 1046 \<and>
   take_bit 10 (3169302::int) = 22 \<and>
   take_bit 10 (drop_bit 10 (3169302::int)) = 23 \<and>
   take_bit 10 (drop_bit 20 (3169302::int)) = 3 \<and>
   create_hashes [(0, 23552000), (2, 23552000)] None = [(1076887552, (0, None))] \<and>
   \<not> (1076887552::int) < 2 ^ 30"
  by code_simp

text \<open>
  C3, amended. When every frequency of the constellation map lies in \<open>[0, 23000)\<close>, every
  hash lies in \<open>[0, 2 ^ 30)\<close> and its three 10-bit fields are the truncated scaled frequency
  of an anchor, the truncated scaled frequency of a target, and their time difference, which
  lies between 2 and 10.
\<close>

theorem hash_range:
  assumes freq: "\<forall>lm\<in>set cm. 0 \<le> snd lm \<and> snd lm < upper_frequency"
    and item: "(h, e) \<in> set (create_hashes cm sid)"
  shows "0 \<le> h \<and> h < 2 ^ 30 \<and>
         (\<exists>i j. i < length cm \<and> j < length cm \<and> e = (fst (cm ! i), sid) \<and>
            take_bit 10 h = py_int (snd (cm ! i) / upper_frequency * 2 ^ frequency_bits) \<and>
            take_bit 10 (drop_bit 10 h) =
              py_int (snd (cm ! j) / upper_frequency * 2 ^ frequency_bits) \<and>
            take_bit 10 (drop_bit 20 h) = fst (cm ! j) - fst (cm ! i) \<and>
            2 \<le> fst (cm ! j) - fst (cm ! i) \<and> fst (cm ! j) - fst (cm ! i) \<le> 10)"
proof -
  have "(h, e) \<in> set (emitted sid cm)"
    using item fold_dict_set_subset [of "emitted sid cm" "[]"]
    by (auto simp: create_hashes_emitted)
  then obtain i j where ij: "i < length cm" "j < length cm"
    and delta: "2 \<le> fst (cm ! j) - fst (cm ! i)" "fst (cm ! j) - fst (cm ! i) \<le> 10"
    and h: "h = hash_val (snd (cm ! i)) (snd (cm ! j)) (fst (cm ! j) - fst (cm ! i))"
    and e: "e = (fst (cm ! i), sid)"
    unfolding in_emitted by blast
  let ?a = "py_int (snd (cm ! i) / upper_frequency * 2 ^ frequency_bits)"
  let ?b = "py_int (snd (cm ! j) / upper_frequency * 2 ^ frequency_bits)"
  let ?c = "fst (cm ! j) - fst (cm ! i)"
  from ij freq have fi: "0 \<le> snd (cm ! i)" "snd (cm ! i) < upper_frequency"
    and fj: "0 \<le> snd (cm ! j)" "snd (cm ! j) < upper_frequency"
    by simp_all
  have a: "0 \<le> ?a" "?a < 2 ^ 10" using scaled_frequency_range [OF fi] by simp_all
  have b: "0 \<le> ?b" "?b < 2 ^ 10" using scaled_frequency_range [OF fj] by simp_all
  have c: "0 \<le> ?c" "?c < 2 ^ 10" using delta by simp_all
  have hv: "h = ?a OR push_bit 10 ?b OR push_bit 20 ?c"
    by (simp add: h hash_val_def)
  from pack_fields [OF a b c] hv ij delta e show ?thesis
    by blast
qed

theorem hash_range_witness:
  "(2116627, (0, None)) \<in> set (create_hashes small_example_prefix None) \<and>
   (0 \<le> (2116627::int) \<and> (2116627::int) < 2 ^ 30 \<and>
    (\<exists>i j. i < length small_example_prefix \<and> j < length small_example_prefix \<and>
       (0::int, None::song_id) = (fst (small_example_prefix ! i), None) \<and>
       take_bit 10 (2116627::int) =
         py_int (snd (small_example_prefix ! i) / upper_frequency * 2 ^ frequency_bits) \<and>
       take_bit 10 (drop_bit 10 (2116627::int)) =
         py_int (snd (small_example_prefix ! j) / upper_frequency * 2 ^ frequency_bits) \<and>
       take_bit 10 (drop_bit 20 (2116627::int)) =
         fst (small_example_prefix ! j) - fst (small_example_prefix ! i) \<and>
       2 \<le> fst (small_example_prefix ! j) - fst (small_example_prefix ! i) \<and>
       fst (small_example_prefix ! j) - fst (small_example_prefix ! i) \<le> 10))"
proof -
  have f: "\<forall>lm\<in>set small_example_prefix. 0 \<le> snd lm \<and> snd lm < upper_frequency"
    by code_simp
  have m: "(2116627, (0, None)) \<in> set (create_hashes small_example_prefix None)"
    by code_simp
  show ?thesis
    by (rule conjI [OF m hash_range [OF f m]])
qed

section \<open>Claims about \<^verbatim>\<open>score_songs\<close>\<close>

text \<open>
  C2. Every song in the output of \<^verbatim>\<open>score_songs\<close> has at least one matched triple; its
  reported offset is the offset of one of its triples; its score is the number of its triples
  with that offset; no offset has more triples (the score is the largest bucket of the
  histogram); and every offset met before the reported one, in the order in which the triples
  were collected, has strictly fewer triples (ties go to the offset met first).
\<close>

theorem score_songs_modal_offset:
  assumes "(s, (off, sc)) \<in> set (score_songs hashes database)"
  shows "matched_triples hashes database s \<noteq> [] \<and>
         off \<in> offset_of ` set (matched_triples hashes database s) \<and>
         sc = offset_count off (matched_triples hashes database s) \<and>
         (\<forall>d. offset_count d (matched_triples hashes database s) \<le> sc) \<and>
         (\<forall>d\<in>set (takeWhile (\<lambda>d. d \<noteq> off) (map offset_of (matched_triples hashes database s))).
            offset_count d (matched_triples hashes database s) < sc)"
proof -
  let ?ts = "matched_triples hashes database s"
  from in_score_songs [OF assms]
  have ne: "?ts \<noteq> []" and r: "max_score (offset_histogram ?ts) = (off, sc)"
    by simp_all
  from max_score_histogram [OF ne] show ?thesis
    unfolding r using ne by auto
qed

theorem score_songs_modal_offset_witness:
  "(Some 0, (10, 2)) \<in> set (score_songs query_example index_example) \<and>
   matched_triples query_example index_example (Some 0) \<noteq> [] \<and>
   10 \<in> offset_of ` set (matched_triples query_example index_example (Some 0)) \<and>
   2 = offset_count 10 (matched_triples query_example index_example (Some 0)) \<and>
   (\<forall>d. offset_count d (matched_triples query_example index_example (Some 0)) \<le> 2) \<and>
   offset_count 2 (matched_triples query_example index_example (Some 0)) < 2"
proof -
  have m: "(Some 0, (10, 2)) \<in> set (score_songs query_example index_example)"
    by code_simp
  have b: "2 \<in> set (takeWhile (\<lambda>d. d \<noteq> 10)
                (map offset_of (matched_triples query_example index_example (Some 0))))"
    by code_simp
  from score_songs_modal_offset [OF m] b m show ?thesis
    by blast
qed

text \<open>
  C6. The list returned by \<^verbatim>\<open>score_songs\<close> is sorted by score in descending order; every
  song in it has a score of at least 1 and at least one matched triple; when no query hash has
  a reference occurrence in the index the result is the empty list, and so it is for the empty
  index.
\<close>

theorem score_songs_sorted_nonzero:
  "sorted_wrt (\<lambda>a b. snd (snd b) \<le> snd (snd a)) (score_songs hashes database) \<and>
   (\<forall>r\<in>set (score_songs hashes database).
      1 \<le> snd (snd r) \<and> matched_triples hashes database (fst r) \<noteq> []) \<and>
   ((\<forall>item\<in>set hashes. lookup database (fst item) = []) \<longrightarrow>
      score_songs hashes database = []) \<and>
   score_songs hashes [] = []"
proof -
  have a: "sorted_wrt (\<lambda>a b. snd (snd b) \<le> snd (snd a)) (score_songs hashes database)"
    unfolding score_songs_def by (rule sorted_reverse_sorted)
  have b: "1 \<le> snd (snd r) \<and> matched_triples hashes database (fst r) \<noteq> []"
    if "r \<in> set (score_songs hashes database)" for r
  proof -
    obtain s off sc where r: "r = (s, (off, sc))" by (cases r) auto
    from that have m: "(s, (off, sc)) \<in> set (score_songs hashes database)" by (simp add: r)
    let ?ts = "matched_triples hashes database s"
    from in_score_songs [OF m] have ne: "?ts \<noteq> []"
      and mr: "max_score (offset_histogram ?ts) = (off, sc)" by simp_all
    from max_score_histogram [OF ne] have "off \<in> offset_of ` set ?ts" "sc = offset_count off ?ts"
      unfolding mr by simp_all
    then have "filter (\<lambda>m. offset_of m = off) ?ts \<noteq> []"
      by (auto simp: filter_empty_conv)
    then have "1 \<le> length (filter (\<lambda>m. offset_of m = off) ?ts)"
      by (simp add: Suc_le_eq)
    with \<open>sc = offset_count off ?ts\<close> ne show ?thesis
      by (simp add: r offset_count_def)
  qed
  have c: "score_songs hashes database = []"
    if "\<forall>item\<in>set hashes. lookup database (fst item) = []"
    using collect_matches_empty [OF that]
    by (simp add: score_songs_def song_scores_def sorted_reverse_def)
  have d: "score_songs hashes [] = []"
    using collect_matches_empty [of hashes "[]"]
    by (simp add: score_songs_def song_scores_def sorted_reverse_def lookup_Nil)
  from a b c d show ?thesis by blast
qed


theorem score_songs_sorted_nonzero_witness:
  "score_songs query_example disjoint_index_example = [] \<and>
   (Some 0, (10, 2)) \<in> set (score_songs query_example index_example) \<and>
   1 \<le> snd (snd (Some (0::nat), (10::int, 2::int))) \<and>
   matched_triples query_example index_example (fst (Some (0::nat), (10::int, 2::int))) \<noteq> []"
proof -
  have h: "\<forall>item\<in>set query_example. lookup disjoint_index_example (fst item) = []"
    by code_simp
  have m: "(Some 0, (10, 2)) \<in> set (score_songs query_example index_example)"
    by code_simp
  from h score_songs_sorted_nonzero [of query_example disjoint_index_example]
  have "score_songs query_example disjoint_index_example = []" by blast
  moreover from m score_songs_sorted_nonzero [of query_example index_example]
  have "1 \<le> snd (snd (Some (0::nat), (10::int, 2::int))) \<and>
    matched_triples query_example index_example (fst (Some (0::nat), (10::int, 2::int))) \<noteq> []"
    by blast
  ultimately show ?thesis using m by blast
qed

section \<open>Claims about the index and about matching\<close>

text \<open>
  C5. Adding an item to the index appends its entry to the list stored under its hash and
  leaves every other list unchanged, so the number of stored entries grows by one. After the
  build loop the list under a hash is the concatenation, in corpus order, of the entries every
  recording generated for that hash; the number of stored entries is the number of generated
  hashes; and every generated entry is found under its hash.
\<close>

theorem index_append_only:
  "lookup (index_add (h, e) database) h' =
     (if h' = h then lookup database h' @ [e] else lookup database h') \<and>
   total_entries (index_add (h, e) database) = total_entries database + 1 \<and>
   lookup (build_database corpus) h' =
     concat (map (\<lambda>song. map snd (filter (\<lambda>p. fst p = h')
                    (create_hashes (snd song) (Some (fst song))))) (enumerate 0 corpus)) \<and>
   total_entries (build_database corpus) =
     sum_list (map (\<lambda>song. length (create_hashes (snd song) (Some (fst song))))
                (enumerate 0 corpus)) \<and>
   (\<forall>i<length corpus. \<forall>item\<in>set (create_hashes (corpus ! i) (Some i)).
      snd item \<in> set (lookup (build_database corpus) (fst item)))"
proof -
  have a: "lookup (index_add (h, e) database) h' =
     (if h' = h then lookup database h' @ [e] else lookup database h')"
    by (simp add: index_add_group_step lookup_group_step)
  have b: "total_entries (index_add (h, e) database) = total_entries database + 1"
    by (simp add: index_add_group_step total_group_step)
  have c: "lookup (build_database corpus) k =
     concat (map (\<lambda>song. map snd (filter (\<lambda>p. fst p = k)
                    (create_hashes (snd song) (Some (fst song))))) (enumerate 0 corpus))" for k
    by (simp add: build_database_def lookup_fold_add_song lookup_Nil)
  have d: "total_entries (build_database corpus) =
     sum_list (map (\<lambda>song. length (create_hashes (snd song) (Some (fst song))))
                (enumerate 0 corpus))"
    by (simp add: build_database_def total_fold_add_song total_entries_Nil)
  have e: "snd item \<in> set (lookup (build_database corpus) (fst item))"
    if "i < length corpus" "item \<in> set (create_hashes (corpus ! i) (Some i))" for i item
  proof -
    from that(1) have "(i, corpus ! i) \<in> set (enumerate 0 corpus)"
      by (simp add: in_set_enumerate_eq)
    moreover from that(2) have
      "snd item \<in> set (map snd (filter (\<lambda>p. fst p = fst item) (create_hashes (corpus ! i) (Some i))))"
      by simp
    ultimately show ?thesis
      unfolding c by force
  qed
  from a b c d e show ?thesis by blast
qed

theorem index_append_only_witness:
  "1 < length corpus_example \<and>
   (2116627, (0, Some 1)) \<in> set (create_hashes (corpus_example ! 1) (Some 1)) \<and>
   snd (2116627::int, (0::int, Some (1::nat))) \<in>
     set (lookup (build_database corpus_example) (fst (2116627::int, (0::int, Some (1::nat)))))"
proof -
  have l: "1 < length corpus_example" by code_simp
  have m: "(2116627, (0, Some 1)) \<in> set (create_hashes (corpus_example ! 1) (Some 1))"
    by code_simp
  from l m index_append_only [of 0 "(0, None)" "[]" 0 corpus_example]
  have "snd (2116627::int, (0::int, Some (1::nat))) \<in>
     set (lookup (build_database corpus_example) (fst (2116627::int, (0::int, Some (1::nat)))))"
    by blast
  with l m show ?thesis by blast
qed

text \<open>
  C1, as stated, fails for a recording that yields no hash: the index built from it is empty,
  the result of matching is the empty list, and there is no top result.
\<close>

theorem self_match_counterexample:
  "score_songs (create_hashes [(0, 440), (1, 880)] None) (build_database [[(0, 440), (1, 880)]]) = []"
  by code_simp

text \<open>
  C1, amended. For every recording whose hash set is not empty, matching its own hashes
  (song identifier \<^verbatim>\<open>None\<close>) against the index built from that recording alone gives exactly
  one result: the recording's song identifier, offset 0, and as score the number of query
  hashes that are keys of the index, which are all of them.
\<close>

theorem self_match:
  assumes "create_hashes cm None \<noteq> []"
  shows "score_songs (create_hashes cm None) (add_song (sid, cm) []) =
           [(Some sid, (0, int (length (colliding (create_hashes cm None) (add_song (sid, cm) [])))))] \<and>
         colliding (create_hashes cm None) (add_song (sid, cm) []) = create_hashes cm None \<and>
         build_database [cm] = add_song (0, cm) []"
proof -
  let ?hs = "create_hashes cm (Some sid)"
  let ?q = "create_hashes cm None"
  let ?db = "add_song (sid, cm) []"
  let ?triple = "\<lambda>item::int \<times> hash_entry. (fst item, fst (snd item), fst (snd item))"
  have q: "?q = map (retag None) ?hs" by (rule create_hashes_retag)
  have db: "?db = fold group_step ?hs []" by (simp add: add_song_group)
  have dist: "distinct (map fst ?hs)" by (rule create_hashes_distinct)
  from assms q have ne: "?hs \<noteq> []" by auto
  have look: "lookup ?db (fst item) = [snd item]" if "item \<in> set ?hs" for item
    using filter_key_distinct [OF dist that]
    by (simp add: db lookup_fold_group_step lookup_Nil)
  have hm: "hash_matches ?db (retag None item) = [(Some sid, ?triple item)]"
    if "item \<in> set ?hs" for item
    using look [OF that] create_hashes_song [OF that]
    by (simp add: hash_matches_def retag_def)
  have "map (hash_matches ?db) ?q = map (\<lambda>item. [(Some sid, ?triple item)]) ?hs"
    unfolding q using hm by simp
  then have am: "all_matches ?q ?db = map (Pair (Some sid)) (map ?triple ?hs)"
    by (simp add: all_matches_def comp_def)
  have cm: "collect_matches ?q ?db = [(Some sid, map ?triple ?hs)]"
    unfolding collect_matches_group am
    by (rule fold_group_same_key_Nil) (use ne in simp)
  have "map offset_of (map ?triple ?hs) = replicate (length ?hs) 0"
    by (simp add: offset_of_def comp_def map_replicate_const)
  then have "offset_histogram (map ?triple ?hs) = fold count_step (replicate (length ?hs) 0) []"
    by (simp only: offset_histogram_fold)
  also have "\<dots> = [(0, int (length ?hs))]"
    by (rule histogram_constant_Nil) (use ne in simp)
  finally have hist: "offset_histogram (map ?triple ?hs) = [(0, int (length ?hs))]" .
  have score: "score_songs ?q ?db = [(Some sid, (0, int (length ?hs)))]"
    by (simp add: score_songs_def cm song_scores_def score_step_def hist max_score_def
        max_step_def sorted_reverse_def)
  have keys: "fst ` set ?db = fst ` set ?hs"
    by (simp add: db keys_fold_group_step)
  have "map_of ?db (fst item) \<noteq> None" if "item \<in> set ?q" for item
  proof -
    from that obtain item' where "item' \<in> set ?hs" "item = retag None item'"
      unfolding q by auto
    then have "fst item \<in> fst ` set ?hs" by (simp add: retag_def)
    then show ?thesis unfolding keys [symmetric] by (simp add: map_of_eq_None_iff)
  qed
  then have coll: "colliding ?q ?db = ?q"
    by (simp add: colliding_def)
  have len: "length ?q = length ?hs" unfolding q by simp
  have build: "build_database [cm] = add_song (0, cm) []"
    by (simp add: build_database_def)
  from score coll len build show ?thesis by simp
qed

theorem self_match_witness:
  "create_hashes small_example None \<noteq> [] \<and>
   score_songs (create_hashes small_example None) (add_song (0, small_example) []) =
     [(Some 0, (0, int (length (colliding (create_hashes small_example None)
                                   (add_song (0, small_example) [])))))] \<and>
   colliding (create_hashes small_example None) (add_song (0, small_example) []) =
     create_hashes small_example None \<and>
   build_database [small_example] = add_song (0, small_example) []"
proof -
  have h: "create_hashes small_example None \<noteq> []" by code_simp
  show ?thesis
    by (rule conjI [OF h self_match [OF h]])
qed

section \<open>Claims about \<^verbatim>\<open>create_constellation_map\<close>\<close>

text \<open>
  C9. A call of \<^verbatim>\<open>create_constellation_map\<close> with a sample rate of 0 or less returns no
  constellation map: it ends with an exception before the transform is called, whatever the
  sample buffer and the library functions are. The window size is then 0 or negative; for 0
  the modulo raises \<^verbatim>\<open>ZeroDivisionError\<close>, for a negative size the pad width is negative and
  \<^verbatim>\<open>np.pad\<close> raises \<^verbatim>\<open>ValueError\<close>.
\<close>

theorem nonpositive_rate_rejected:
  assumes "sample_rate \<le> 0"
  shows "create_constellation_map stft find_peaks argpartition audio sample_rate = Inl ZeroDivisionError \<or>
         create_constellation_map stft find_peaks argpartition audio sample_rate = Inl ValueError"
proof (cases "sample_window_size sample_rate = 0")
  case True
  then show ?thesis by (simp add: create_constellation_map_def)
next
  case False
  with window_nonpos [OF assms] have "sample_window_size sample_rate < 0" by simp
  from padding_negative [OF this] False show ?thesis
    by (simp add: create_constellation_map_def)
qed

theorem nonpositive_rate_rejected_witness:
  "(- 44100::int) \<le> 0 \<and>
   (create_constellation_map example_stft example_find_peaks example_argpartition
      [0, 0, 0] (- 44100) = Inl ZeroDivisionError \<or>
    create_constellation_map example_stft example_find_peaks example_argpartition
      [0, 0, 0] (- 44100) = Inl ValueError)"
proof -
  have h: "(- 44100::int) \<le> 0" by simp
  show ?thesis
    by (rule conjI [OF h nonpositive_rate_rejected [OF h]])
qed




section \<open>The two copies of the functions\<close>

text \<open>
  C10. For every input the functions of \<^verbatim>\<open>app.py\<close> return what their counterparts in
  \<^verbatim>\<open>song_recognizer.py\<close> return, \<^verbatim>\<open>score_songs\<close> for the same binding of \<^verbatim>\<open>database\<close>.
\<close>

theorem app_functions_equal:
  "app_create_constellation_map stft find_peaks argpartition audio sample_rate =
     create_constellation_map stft find_peaks argpartition audio sample_rate \<and>
   app_create_hashes constellation_map song_id = create_hashes constellation_map song_id \<and>
   app_score_songs hashes database = score_songs hashes database"
proof -
  have a: "app_create_constellation_map stft find_peaks argpartition audio sample_rate =
           create_constellation_map stft find_peaks argpartition audio sample_rate"
    by (simp add: app_create_constellation_map_def create_constellation_map_def
        sample_window_size_def padding_def window_landmarks_def [abs_def] num_peaks_def
        Let_def split_def cong: if_cong option.case_cong sum.case_cong)
  have b: "app_create_hashes constellation_map song_id = create_hashes constellation_map song_id"
    by (simp add: app_create_hashes_def create_hashes_def outer_step_def [abs_def]
        inner_step_def [abs_def] hash_val_def upper_frequency_def frequency_bits_def
        Let_def split_def cong: if_cong option.case_cong sum.case_cong)
  have c: "app_score_songs hashes database = score_songs hashes database"
    by (simp add: app_score_songs_def score_songs_def song_scores_def collect_matches_def
        lookup_step_def [abs_def] add_match_def [abs_def] score_step_def [abs_def]
        max_score_def offset_histogram_def count_offset_def [abs_def] max_step_def [abs_def]
        Let_def split_def cong: if_cong option.case_cong sum.case_cong)
  from a b c show ?thesis by blast
qed

end
